theory Spec2Isabelle
  imports Complex_Main "HOL-Library.Sublist" "HOL-Library.Multiset"
begin

section \<open>Python strings\<close>

text \<open>
  A Python \<open>str\<close> is a sequence of code points. The model uses \<open>string\<close> and reads
  each \<open>char\<close> as the code point with the same number, so it covers the strings over
  U+0000 .. U+00FF. The predicates below are Python's on that range.
\<close>

definition py_isspace :: "char \<Rightarrow> bool" where
  \<comment> \<open>\<open>str.isspace\<close>: TAB..CR, FS..US, SPACE, NEL, NBSP\<close>
  "py_isspace c =
     (let n = (of_char c :: nat)
      in (9 \<le> n \<and> n \<le> 13) \<or> (28 \<le> n \<and> n \<le> 32) \<or> n = 133 \<or> n = 160)"

definition py_strip :: "string \<Rightarrow> string" where
  \<comment> \<open>\<open>s.strip()\<close>\<close>
  "py_strip s = rev (dropWhile py_isspace (rev (dropWhile py_isspace s)))"

fun py_split_char :: "char \<Rightarrow> string \<Rightarrow> string list" where
  \<comment> \<open>\<open>s.split(sep)\<close> for a one-character separator; the result is never empty\<close>
  "py_split_char sep [] = [[]]"
| "py_split_char sep (x # xs) =
     (if x = sep then [] # py_split_char sep xs
      else (case py_split_char sep xs of
              [] \<Rightarrow> [[x]]
            | p # ps \<Rightarrow> (x # p) # ps))"

fun split_ws :: "string \<Rightarrow> string \<Rightarrow> string list" where
  \<comment> \<open>\<open>s.split()\<close>: maximal runs of non-whitespace; \<open>cur\<close> is the run being read, reversed\<close>
  "split_ws cur [] = (if cur = [] then [] else [rev cur])"
| "split_ws cur (x # xs) =
     (if py_isspace x
      then (if cur = [] then split_ws [] xs else rev cur # split_ws [] xs)
      else split_ws (x # cur) xs)"

definition py_split :: "string \<Rightarrow> string list" where
  "py_split s = split_ws [] s"

fun py_join :: "string \<Rightarrow> string list \<Rightarrow> string" where
  \<comment> \<open>\<open>sep.join(xs)\<close>\<close>
  "py_join sep [] = []"
| "py_join sep [x] = x"
| "py_join sep (x # y # ys) = x @ sep @ py_join sep (y # ys)"

fun py_contains :: "string \<Rightarrow> string \<Rightarrow> bool" where
  \<comment> \<open>\<open>sub in s\<close>\<close>
  "py_contains sub [] = (sub = [])"
| "py_contains sub (x # xs) = (prefix sub (x # xs) \<or> py_contains sub xs)"

definition py_startswith :: "string \<Rightarrow> string \<Rightarrow> bool" where
  \<comment> \<open>\<open>s.startswith(p)\<close>\<close>
  "py_startswith p s = prefix p s"

definition py_endswith :: "string \<Rightarrow> string \<Rightarrow> bool" where
  \<comment> \<open>\<open>s.endswith(p)\<close>\<close>
  "py_endswith p s = prefix (rev p) (rev s)"

definition py_isupper_char :: "char \<Rightarrow> bool" where
  \<comment> \<open>the code points below 256 that \<open>str.lower\<close> changes: A..Z and U+00C0..U+00DE without U+00D7\<close>
  "py_isupper_char c =
     (let n = (of_char c :: nat)
      in (65 \<le> n \<and> n \<le> 90) \<or> (192 \<le> n \<and> n \<le> 222 \<and> n \<noteq> 215))"

definition py_lower_char :: "char \<Rightarrow> char" where
  \<comment> \<open>the lower-case letter is 32 code points further: bit 5 is set\<close>
  "py_lower_char c =
     (if py_isupper_char c
      then (case c of Char b0 b1 b2 b3 b4 b5 b6 b7 \<Rightarrow> Char b0 b1 b2 b3 b4 True b6 b7)
      else c)"

definition py_lower :: "string \<Rightarrow> string" where
  "py_lower s = map py_lower_char s"

definition is_decimal_char :: "char \<Rightarrow> bool" where
  \<comment> \<open>Unicode category Nd below 256: the digits that \<open>int()\<close> reads\<close>
  "is_decimal_char c = (let n = (of_char c :: nat) in 48 \<le> n \<and> n \<le> 57)"

definition py_isdigit_char :: "char \<Rightarrow> bool" where
  \<comment> \<open>\<open>str.isdigit\<close> also accepts the superscript digits U+00B2, U+00B3 and U+00B9\<close>
  "py_isdigit_char c =
     (let n = (of_char c :: nat) in (48 \<le> n \<and> n \<le> 57) \<or> n = 178 \<or> n = 179 \<or> n = 185)"

definition py_isdigit :: "string \<Rightarrow> bool" where
  \<comment> \<open>\<open>s.isdigit()\<close>: at least one character, and all of them digits\<close>
  "py_isdigit s = (s \<noteq> [] \<and> list_all py_isdigit_char s)"

datatype exn =
    Exception string
  | TimeoutError string
  | ValueError string
  | TypeError string

fun str_exn :: "exn \<Rightarrow> string" where
  \<comment> \<open>\<open>str(e)\<close>\<close>
  "str_exn (Exception m) = m"
| "str_exn (TimeoutError m) = m"
| "str_exn (ValueError m) = m"
| "str_exn (TypeError m) = m"

fun digits_value :: "int \<Rightarrow> string \<Rightarrow> int" where
  "digits_value acc [] = acc"
| "digits_value acc (c # cs) = digits_value (10 * acc + (int (of_char c) - 48)) cs"

definition py_int :: "string \<Rightarrow> exn + int" where
  \<comment> \<open>\<open>int(part)\<close> for a part without sign, blank or underscore, which is all the
      parsers pass: a number when every character is a decimal digit, ValueError otherwise.
      The limit that recent interpreters put on the number of digits is left out.\<close>
  "py_int s =
     (if s \<noteq> [] \<and> list_all is_decimal_char s then Inr (digits_value 0 s)
      else Inl (ValueError (''invalid literal for int() with base 10: '' @ [CHR 0x27] @ s
                            @ [CHR 0x27])))"


section \<open>Command normalisation\<close>

text \<open>\<open>RouterConnection._optimize_commands\<close> and \<open>optimize_commands\<close> (the same body).\<close>

fun optimize_loop :: "string list \<Rightarrow> string list \<Rightarrow> string list" where
  "optimize_loop optimized [] = optimized"
| "optimize_loop optimized (cmd # commands) =
     (let cmd = py_strip cmd
      in if cmd = [] then optimize_loop optimized commands
         else let cmd = (if py_startswith ''display'' cmd
                            \<and> \<not> py_contains ''| no-more'' cmd
                            \<and> \<not> py_contains ''|'' cmd
                         then cmd @ '' | no-more'' else cmd)
              in optimize_loop (optimized @ [cmd]) commands)"

definition optimize_commands :: "string list \<Rightarrow> string list" where
  "optimize_commands commands = optimize_loop [] commands"

definition add_no_more :: "string \<Rightarrow> string" where
  \<comment> \<open>the suffix rule of the loop body, on a trimmed command\<close>
  "add_no_more cmd =
     (if py_startswith ''display'' cmd \<and> \<not> py_contains ''|'' cmd
      then cmd @ '' | no-more'' else cmd)"


section \<open>Output cleaning\<close>

text \<open>\<open>_clean_ssh_output\<close>: the loop over the lines, then the join and the final strip.\<close>

definition is_prompt_line :: "string \<Rightarrow> bool" where
  "is_prompt_line line =
     (py_endswith ''>'' line \<or> py_endswith ''#'' line \<or> py_endswith '']'' line
      \<or> py_endswith ''<'' line)"

fun clean_lines :: "string \<Rightarrow> bool \<Rightarrow> string list \<Rightarrow> string list \<Rightarrow> string list" where
  "clean_lines command skip_command cleaned_lines [] = cleaned_lines"
| "clean_lines command skip_command cleaned_lines (line # lines) =
     (let line = py_strip line
      in if skip_command \<and> py_contains (py_strip command) line
         then clean_lines command False cleaned_lines lines
         else if is_prompt_line line \<or> line = []
         then clean_lines command skip_command cleaned_lines lines
         else clean_lines command skip_command (cleaned_lines @ [line]) lines)"

definition clean_ssh_output :: "string \<Rightarrow> string \<Rightarrow> string" where
  "clean_ssh_output output command =
     py_strip (py_join ''\<newline>'' (clean_lines command True [] (py_split_char (CHR 0x0A) output)))"

text \<open>
  The lines that the loop keeps as they are: not empty, already stripped, not ending in a
  prompt character, not containing the trimmed command.
\<close>

definition clean_line :: "string \<Rightarrow> string \<Rightarrow> bool" where
  "clean_line command line =
     (line \<noteq> [] \<and> py_strip line = line \<and> \<not> is_prompt_line line
      \<and> \<not> py_contains (py_strip command) line)"

definition clean_output :: "string \<Rightarrow> string \<Rightarrow> bool" where
  "clean_output command out =
     (out = [] \<or> list_all (clean_line command) (py_split_char (CHR 0x0A) out))"

definition echo_free :: "string \<Rightarrow> string \<Rightarrow> bool" where
  \<comment> \<open>no line of the output contains the trimmed command\<close>
  "echo_free command out =
     list_all (\<lambda>line. \<not> py_contains (py_strip command) line) (py_split_char (CHR 0x0A) out)"

definition kept_line :: "string \<Rightarrow> bool" where
  "kept_line l = (l \<noteq> [] \<and> py_strip l = l \<and> \<not> is_prompt_line l \<and> CHR 0x0A \<notin> set l)"


fun clean_telnet_lines :: "string \<Rightarrow> string list \<Rightarrow> string list \<Rightarrow> string list" where
  "clean_telnet_lines command cleaned_lines [] = cleaned_lines"
| "clean_telnet_lines command cleaned_lines (line # lines) =
     (let line = py_strip line
      in if py_contains (py_strip command) line \<or> py_endswith ''>'' line \<or> line = []
         then clean_telnet_lines command cleaned_lines lines
         else clean_telnet_lines command (cleaned_lines @ [line]) lines)"

definition clean_telnet_output :: "string \<Rightarrow> string \<Rightarrow> string" where
  "clean_telnet_output output command =
     py_strip (py_join ''\<newline>'' (clean_telnet_lines command [] (py_split_char (CHR 0x0A) output)))"


section \<open>Retry with exponential backoff\<close>

text \<open>
  \<open>RETRY_CONFIG\<close>. Delays are Python floats; they are read as the real numbers they
  denote (the products with powers of two are exact in binary floating point).
\<close>

definition RETRY_max_attempts :: int where "RETRY_max_attempts = 3"
definition RETRY_base_delay :: real where "RETRY_base_delay = 3 / 2"
definition RETRY_max_delay :: real where "RETRY_max_delay = 8"
definition RETRY_backoff_multiplier :: real where "RETRY_backoff_multiplier = 2"

definition retry_delay :: "real \<Rightarrow> nat \<Rightarrow> real" where
  "retry_delay base_delay attempt =
     min (base_delay * RETRY_backoff_multiplier ^ attempt) RETRY_max_delay"

text \<open>
  What a run of the wrapper did: what it returned or raised, the state the wrapped
  function left, how many times the function was invoked, and the sleeps in order.
\<close>

record ('a, 's) run =
  outcome :: "exn + 'a"
  final :: 's
  invocations :: nat
  sleeps :: "real list"

definition raise_last :: "exn option \<Rightarrow> exn" where
  \<comment> \<open>\<open>raise last_exception\<close>; raising \<open>None\<close> is a TypeError\<close>
  "raise_last last_exception =
     (case last_exception of
        None \<Rightarrow> TypeError ''exceptions must derive from BaseException''
      | Some e \<Rightarrow> e)"

text \<open>
  The loop \<open>for attempt in range(attempts)\<close> of the wrapper. The wrapped function is a
  state transformer that returns or raises. \<open>time.sleep\<close> raises ValueError on a
  negative length, inside the handler, so that error leaves the wrapper. The sleeps are
  recorded in the run; they do not change the state of the wrapped function.
\<close>

function retry_loop ::
  "int \<Rightarrow> real \<Rightarrow> ('s \<Rightarrow> (exn + 'a) \<times> 's) \<Rightarrow> nat \<Rightarrow> exn option \<Rightarrow> 's \<Rightarrow> nat \<Rightarrow> real list
   \<Rightarrow> ('a, 's) run" where
  "retry_loop attempts base_delay func attempt last_exception s n slept =
     (if int attempt < attempts then
        (case func s of
           (Inr v, s') \<Rightarrow> \<lparr>outcome = Inr v, final = s', invocations = n + 1, sleeps = slept\<rparr>
         | (Inl e, s') \<Rightarrow>
             if int attempt = attempts - 1
             then \<lparr>outcome = Inl (raise_last (Some e)), final = s', invocations = n + 1,
                    sleeps = slept\<rparr>
             else let d = retry_delay base_delay attempt
                  in if d < 0
                     then \<lparr>outcome = Inl (ValueError ''sleep length must be non-negative''),
                            final = s', invocations = n + 1, sleeps = slept\<rparr>
                     else retry_loop attempts base_delay func (attempt + 1) (Some e) s' (n + 1)
                            (slept @ [d]))
      else \<lparr>outcome = Inl (raise_last last_exception), final = s, invocations = n,
             sleeps = slept\<rparr>)"
  by pat_completeness auto
termination
  by (relation "measure (\<lambda>(attempts, base_delay, func, attempt, last_exception, s, n, slept).
                           nat (attempts - int attempt))") auto

declare retry_loop.simps [simp del]

definition configured_attempts :: "int option \<Rightarrow> int" where
  \<comment> \<open>\<open>max_attempts or RETRY_CONFIG['max_attempts']\<close>: \<open>None\<close> and \<open>0\<close> give the default\<close>
  "configured_attempts max_attempts =
     (case max_attempts of
        None \<Rightarrow> RETRY_max_attempts
      | Some m \<Rightarrow> if m = 0 then RETRY_max_attempts else m)"

definition configured_delay :: "real option \<Rightarrow> real" where
  \<comment> \<open>\<open>delay or RETRY_CONFIG['base_delay']\<close>\<close>
  "configured_delay delay =
     (case delay of
        None \<Rightarrow> RETRY_base_delay
      | Some d \<Rightarrow> if d = 0 then RETRY_base_delay else d)"

definition retry_on_failure ::
  "int option \<Rightarrow> real option \<Rightarrow> ('s \<Rightarrow> (exn + 'a) \<times> 's) \<Rightarrow> 's \<Rightarrow> ('a, 's) run" where
  "retry_on_failure max_attempts delay func s =
     (let attempts = configured_attempts max_attempts;
          base_delay = configured_delay delay
      in retry_loop attempts base_delay func 0 None s 0 [])"



section \<open>Connection pool\<close>

datatype proto = SSH | Telnet

record conn_info =
  connection :: nat
  protocol :: proto
  conn_created_at :: real
  last_used :: real
  is_healthy :: bool
  usage_count :: nat

definition idle_timeout :: real where "idle_timeout = 300"
definition max_age :: real where "max_age = 1800"
definition max_connections :: nat where "max_connections = 5"

definition is_expired :: "conn_info \<Rightarrow> real \<Rightarrow> bool" where
  \<comment> \<open>\<open>ConnectionInfo.is_expired\<close>, the second argument is \<open>datetime.now()\<close>\<close>
  "is_expired ci now =
     (now - last_used ci > idle_timeout \<or> now - conn_created_at ci > max_age)"

definition mark_used :: "conn_info \<Rightarrow> real \<Rightarrow> conn_info" where
  "mark_used ci now = ci\<lparr>last_used := now, usage_count := usage_count ci + 1\<rparr>"

text \<open>
  The state the pool and the executor work on: the clock, the queue of idle connections
  (the head is the next one handed out), the handles that were closed, the number of
  connections opened so far, and the commands written with the handle they went to.
\<close>

record world =
  clock :: real
  pool :: "conn_info list"
  closed :: "nat list"
  opened :: nat
  sent :: "(nat \<times> string) list"

text \<open>
  The device and the transport library, as the code sees them: whether opening a session
  raises, whether a transport is still active, whether opening the shell raises, and what
  one command gives (its raw output or an exception); each with the time it takes.
\<close>

record device =
  dev_protocol :: proto
  dev_connect :: "world \<Rightarrow> exn option \<times> real"
  dev_active :: "world \<Rightarrow> nat \<Rightarrow> bool"
  dev_shell :: "world \<Rightarrow> nat \<Rightarrow> exn option \<times> real"
  dev_command :: "world \<Rightarrow> nat \<Rightarrow> string \<Rightarrow> (exn + string) \<times> real"

definition tick :: "real \<Rightarrow> world \<Rightarrow> world" where
  "tick t w = w\<lparr>clock := clock w + t\<rparr>"

definition close_connection :: "conn_info \<Rightarrow> world \<Rightarrow> world" where
  "close_connection ci w = w\<lparr>closed := closed w @ [connection ci]\<rparr>"

definition test_connection_health :: "device \<Rightarrow> world \<Rightarrow> conn_info \<Rightarrow> bool" where
  "test_connection_health dev w ci =
     (if protocol ci = SSH then dev_active dev w (connection ci) else True)"

definition put_nowait :: "conn_info \<Rightarrow> world \<Rightarrow> world option" where
  \<comment> \<open>\<open>Queue.put_nowait\<close> on a queue of \<open>maxsize\<close> 5: \<open>None\<close> stands for \<open>Full\<close>\<close>
  "put_nowait ci w =
     (if length (pool w) < max_connections then Some (w\<lparr>pool := pool w @ [ci]\<rparr>) else None)"

fun cleanup_take :: "conn_info list \<Rightarrow> conn_info list \<Rightarrow> world \<Rightarrow> conn_info list \<times> world" where
  \<comment> \<open>the \<open>while not self._pool.empty()\<close> loop: the queue is emptied\<close>
  "cleanup_take [] active_connections w = (active_connections, w\<lparr>pool := []\<rparr>)"
| "cleanup_take (ci # queue) active_connections w =
     (if \<not> is_expired ci (clock w) \<and> is_healthy ci
      then cleanup_take queue (active_connections @ [ci]) w
      else cleanup_take queue active_connections (close_connection ci w))"

fun cleanup_put :: "conn_info list \<Rightarrow> world \<Rightarrow> world" where
  "cleanup_put [] w = w"
| "cleanup_put (ci # active_connections) w =
     (case put_nowait ci w of
        Some w' \<Rightarrow> cleanup_put active_connections w'
      | None \<Rightarrow> cleanup_put active_connections (close_connection ci w))"

definition cleanup_expired_connections :: "world \<Rightarrow> world" where
  "cleanup_expired_connections w =
     (case cleanup_take (pool w) [] w of (active_connections, w') \<Rightarrow>
        cleanup_put active_connections w')"

text \<open>What the sweep keeps.\<close>

definition keepable :: "real \<Rightarrow> conn_info \<Rightarrow> bool" where
  "keepable now ci = (\<not> is_expired ci now \<and> is_healthy ci)"

definition create_new_connection :: "device \<Rightarrow> world \<Rightarrow> (exn + conn_info) \<times> world" where
  "create_new_connection dev w =
     (case dev_connect dev w of (r, t) \<Rightarrow>
        let w' = tick t w
        in case r of
             Some e \<Rightarrow> (Inl e, w')
           | None \<Rightarrow>
               (Inr \<lparr>connection = opened w', protocol = dev_protocol dev,
                     conn_created_at = clock w', last_used = clock w',
                     is_healthy = True, usage_count = 0\<rparr>,
                w'\<lparr>opened := opened w' + 1\<rparr>))"

text \<open>
  \<open>get_connection\<close> is a context manager. \<open>acquire\<close> is the part before the
  \<open>yield\<close>, \<open>release\<close> the handler and the \<open>finally\<close> block after it; the flag says
  whether the block using the connection raised.
\<close>

definition acquire :: "device \<Rightarrow> world \<Rightarrow> (exn + conn_info) \<times> world" where
  "acquire dev w =
     (case (case pool w of
              [] \<Rightarrow> (None, w)
            | ci # queue \<Rightarrow>
                let w' = w\<lparr>pool := queue\<rparr>
                in if is_expired ci (clock w') \<or> \<not> test_connection_health dev w' ci
                   then (None, close_connection ci w')
                   else (Some ci, w'))
      of
        (Some ci, w1) \<Rightarrow> (Inr (mark_used ci (clock w1)), w1)
      | (None, w1) \<Rightarrow>
          (case create_new_connection dev w1 of
             (Inl e, w2) \<Rightarrow> (Inl e, w2)
           | (Inr ci, w2) \<Rightarrow> (Inr (mark_used ci (clock w2)), w2)))"

definition release :: "bool \<Rightarrow> conn_info \<Rightarrow> world \<Rightarrow> world" where
  "release raised ci0 w =
     (let ci = (if raised then ci0\<lparr>is_healthy := False\<rparr> else ci0)
      in if is_healthy ci \<and> \<not> is_expired ci (clock w)
         then (case put_nowait ci w of
                 Some w' \<Rightarrow> w'
               | None \<Rightarrow> close_connection ci w)
         else close_connection ci w)"


section \<open>Command executor\<close>

fun run_commands ::
  "device \<Rightarrow> conn_info \<Rightarrow> string list \<Rightarrow> string list \<Rightarrow> world \<Rightarrow> (exn + string list) \<times> world" where
  \<comment> \<open>the \<open>for command in commands\<close> loop of both protocols; a raise ends it\<close>
  "run_commands dev ci [] results w = (Inr results, w)"
| "run_commands dev ci (c # commands) results w =
     (case dev_command dev w (connection ci) c of (r, t) \<Rightarrow>
        let w' = (tick t w)\<lparr>sent := sent w @ [(connection ci, c)]\<rparr>
        in case r of
             Inl e \<Rightarrow> (Inl e, w')
           | Inr raw \<Rightarrow>
               run_commands dev ci commands
                 (results @ [if protocol ci = SSH then clean_ssh_output raw c
                             else clean_telnet_output raw c]) w')"

definition execute_ssh_commands ::
  "device \<Rightarrow> conn_info \<Rightarrow> string list \<Rightarrow> world \<Rightarrow> (exn + string list) \<times> world" where
  \<comment> \<open>\<open>invoke_shell\<close> and \<open>_wait_for_prompt\<close> first, then the loop\<close>
  "execute_ssh_commands dev ci commands w =
     (case dev_shell dev w (connection ci) of
        (Some e, t) \<Rightarrow> (Inl e, tick t w)
      | (None, t) \<Rightarrow> run_commands dev ci commands [] (tick t w))"

definition execute_telnet_commands ::
  "device \<Rightarrow> conn_info \<Rightarrow> string list \<Rightarrow> world \<Rightarrow> (exn + string list) \<times> world" where
  "execute_telnet_commands dev ci commands w = run_commands dev ci commands [] w"

definition execute_commands_body ::
  "device \<Rightarrow> string list \<Rightarrow> world \<Rightarrow> (exn + string list) \<times> world" where
  \<comment> \<open>the undecorated method: every exception of the \<open>with\<close> block is caught\<close>
  "execute_commands_body dev commands w =
     (if commands = [] then (Inr [], w)
      else let optimized_commands = optimize_commands commands
           in case acquire dev w of
                (Inl e, w1) \<Rightarrow> (Inr [''Error: '' @ str_exn e], w1)
              | (Inr ci, w1) \<Rightarrow>
                  (case (if protocol ci = SSH
                         then execute_ssh_commands dev ci optimized_commands w1
                         else execute_telnet_commands dev ci optimized_commands w1)
                   of
                     (Inr results, w2) \<Rightarrow> (Inr results, release False ci w2)
                   | (Inl e, w2) \<Rightarrow> (Inr [''Error: '' @ str_exn e], release True ci w2)))"

definition with_timeout ::
  "real \<Rightarrow> string \<Rightarrow> (world \<Rightarrow> (exn + 'a) \<times> world) \<Rightarrow> world \<Rightarrow> (exn + 'a) \<times> world" where
  \<comment> \<open>the call runs in a worker thread; leaving the \<open>with\<close> block waits for it, so its
      effects are complete either way. The second argument is the message.\<close>
  "with_timeout timeout_seconds msg func w =
     (case func w of (r, w') \<Rightarrow>
        if clock w' - clock w > timeout_seconds then (Inl (TimeoutError msg), w') else (r, w'))"

definition TIMEOUT_command :: real where "TIMEOUT_command = 12"

definition execute_commands :: "device \<Rightarrow> string list \<Rightarrow> world \<Rightarrow> (string list, world) run" where
  \<comment> \<open>\<open>@retry_on_failure()\<close> around \<open>@with_timeout(TIMEOUTS['command'] * 2)\<close>\<close>
  "execute_commands dev commands w =
     retry_on_failure None None
       (with_timeout (TIMEOUT_command * 2) ''execute_commands excedeu timeout de 24s''
          (execute_commands_body dev commands)) w"


section \<open>Devices and worlds for the evaluations\<close>



text \<open>A device that answers, and a world whose only pooled connection has been idle for 400 s.\<close>

definition reachable_device :: device where
  "reachable_device =
     \<lparr>dev_protocol = SSH,
      dev_connect = (\<lambda>w. (None, 1)),
      dev_active = (\<lambda>w h. True),
      dev_shell = (\<lambda>w h. (None, 0)),
      dev_command = (\<lambda>w h c. (Inr c, 1))\<rparr>"

definition stale_conn :: conn_info where
  "stale_conn =
     \<lparr>connection = 0, protocol = SSH, conn_created_at = 500, last_used = 600,
      is_healthy = True, usage_count = 3\<rparr>"

definition stale_world :: world where
  "stale_world = \<lparr>clock = 1000, pool = [stale_conn], closed = [], opened = 1, sent = []\<rparr>"


text \<open>
  A fresh world, a device whose transport raises on the second command of a batch, a device
  on which every command takes 12 seconds, and a device that cannot be reached.
\<close>

definition idle_world :: world where
  "idle_world = \<lparr>clock = 0, pool = [], closed = [], opened = 0, sent = []\<rparr>"

definition flaky_device :: device where
  "flaky_device =
     \<lparr>dev_protocol = SSH,
      dev_connect = (\<lambda>w. (None, 1)),
      dev_active = (\<lambda>w h. True),
      dev_shell = (\<lambda>w h. (None, 1)),
      dev_command = (\<lambda>w h c. if c = ''display b | no-more''
                               then (Inl (Exception ''Socket is closed''), 0)
                               else (Inr ''ok'', 1))\<rparr>"


definition unreachable_device :: device where
  "unreachable_device =
     \<lparr>dev_protocol = SSH,
      dev_connect = (\<lambda>w. (Some (Exception ''timed out''), 8)),
      dev_active = (\<lambda>w h. False),
      dev_shell = (\<lambda>w h. (None, 0)),
      dev_command = (\<lambda>w h c. (Inr [], 0))\<rparr>"


section \<open>Parsers\<close>

text \<open>
  The values the parsers build and the cache stores: what \<open>json\<close> can write.
  \<open>datetime.now().isoformat()\<close> is passed in as \<open>now\<close>.
\<close>

datatype json =
    JNull
  | JBool bool
  | JInt int
  | JFloat real
  | JStr string
  | JList "json list"
  | JDict "(string \<times> json) list"

definition interface_record :: "string \<Rightarrow> string list \<Rightarrow> json" where
  "interface_record now parts =
     JDict [(''name'', JStr (parts ! 0)),
            (''status'', JStr (if length parts > 1 then parts ! 1 else ''Unknown'')),
            (''protocol'', JStr (if length parts > 2 then parts ! 2 else ''Unknown'')),
            (''ip_address'', JStr (if length parts > 3 then parts ! 3 else [])),
            (''description'', JStr (if length parts > 4 then py_join '' '' (drop 4 parts) else [])),
            (''utilization_in'', JInt 0),
            (''utilization_out'', JInt 0),
            (''last_update'', JStr now)]"

fun parse_interface_lines :: "string \<Rightarrow> json list \<Rightarrow> string list \<Rightarrow> json list" where
  "parse_interface_lines now interfaces [] = interfaces"
| "parse_interface_lines now interfaces (line # lines) =
     (let line = py_strip line
      in if line = [] \<or> py_contains ''Interface'' line \<or> py_contains ''------'' line
         then parse_interface_lines now interfaces lines
         else let parts = py_split line
              in if length parts \<ge> 3
                 then parse_interface_lines now (interfaces @ [interface_record now parts]) lines
                 else parse_interface_lines now interfaces lines)"

definition parse_interface_output_optimized :: "string \<Rightarrow> string \<Rightarrow> json list" where
  "parse_interface_output_optimized now output =
     (if output = [] \<or> py_contains ''Error:'' output then []
      else parse_interface_lines now [] (py_split_char (CHR 0x0A) output))"

text \<open>
  \<open>parse_pppoe_stats_optimized\<close>. The inner loop over \<open>parts\<close> stops at the first
  part for which \<open>isdigit()\<close> holds and calls \<open>int\<close> on it; a ValueError of
  \<open>int\<close> is not caught in the function.
\<close>

record pppoe_stats =
  total :: int
  active :: int
  peak :: int
  authenticated :: int
  last_update :: string

fun first_digit_part :: "string list \<Rightarrow> string option" where
  "first_digit_part [] = None"
| "first_digit_part (part # parts) =
     (if py_isdigit part then Some part else first_digit_part parts)"

fun pppoe_lines :: "pppoe_stats \<Rightarrow> string list \<Rightarrow> exn + pppoe_stats" where
  "pppoe_lines stats [] = Inr stats"
| "pppoe_lines stats (line # lines) =
     (let line = py_lower (py_strip line)
      in if py_contains ''total'' line \<and> py_contains ''user'' line
         then (case first_digit_part (py_split line) of
                 None \<Rightarrow> pppoe_lines stats lines
               | Some part \<Rightarrow>
                   (case py_int part of
                      Inl e \<Rightarrow> Inl e
                    | Inr v \<Rightarrow> pppoe_lines (stats\<lparr>total := v\<rparr>) lines))
         else if py_contains ''active'' line \<and> py_contains ''session'' line
         then (case first_digit_part (py_split line) of
                 None \<Rightarrow> pppoe_lines stats lines
               | Some part \<Rightarrow>
                   (case py_int part of
                      Inl e \<Rightarrow> Inl e
                    | Inr v \<Rightarrow> pppoe_lines (stats\<lparr>active := v\<rparr>) lines))
         else pppoe_lines stats lines)"

fun pppoe_results :: "pppoe_stats \<Rightarrow> string list \<Rightarrow> exn + pppoe_stats" where
  "pppoe_results stats [] = Inr stats"
| "pppoe_results stats (result # results) =
     (if result = [] \<or> py_contains ''Error:'' result then pppoe_results stats results
      else (case pppoe_lines stats (py_split_char (CHR 0x0A) result) of
              Inl e \<Rightarrow> Inl e
            | Inr stats' \<Rightarrow> pppoe_results stats' results))"

definition parse_pppoe_stats_optimized :: "string \<Rightarrow> string list \<Rightarrow> exn + pppoe_stats" where
  "parse_pppoe_stats_optimized now results =
     pppoe_results \<lparr>total = 0, active = 0, peak = 0, authenticated = 0, last_update = now\<rparr> results"

text \<open>The digits of \<open>isdigit()\<close> that \<open>int()\<close> does not read, and the strings without them.\<close>

definition is_superscript_char :: "char \<Rightarrow> bool" where
  "is_superscript_char c = (let n = (of_char c :: nat) in n = 178 \<or> n = 179 \<or> n = 185)"

definition plain :: "string \<Rightarrow> bool" where
  "plain s = list_all (\<lambda>c. \<not> is_superscript_char c) s"


section \<open>Tiered cache\<close>

text \<open>
  A cache entry is the dict \<open>{'data', 'expires_at', 'created_at'}\<close>. Both times are
  written with \<open>isoformat()\<close> and read back or compared as such; the order of those
  strings is the order of the times, so the model keeps the times. One call reads the clock
  once: \<open>now\<close> is the \<open>datetime.now()\<close> of the call.
\<close>

record 'v cache_entry =
  data :: 'v
  expires_at :: real
  created_at :: real

text \<open>
  \<open>SmartCache\<close>: whether a Redis client is held, the memory cache as a dict in insertion
  order, and the statistics.
\<close>

record 'v smart_cache =
  redis_client :: bool
  memory_cache :: "(string \<times> 'v cache_entry) list"
  hits :: nat
  misses :: nat
  redis_hits :: nat
  memory_hits :: nat

text \<open>
  The Redis server: for a key, the entry that \<open>setex\<close> stored (its JSON text is read back
  as the entry it was written from) and the time at which the server drops it. A call to the
  server either answers or raises; the flag \<open>answers\<close> of an operation says which.
\<close>

type_synonym 'v redis = "string \<Rightarrow> ('v cache_entry \<times> real) option"


definition is_valid_cache_entry :: "'v cache_entry \<Rightarrow> real \<Rightarrow> bool" where
  "is_valid_cache_entry cached_data now = (now < expires_at cached_data)"

fun dict_set :: "('k \<times> 'e) list \<Rightarrow> 'k \<Rightarrow> 'e \<Rightarrow> ('k \<times> 'e) list" where
  \<comment> \<open>\<open>d[key] = value\<close>: a key already present keeps its place\<close>
  "dict_set [] key v = [(key, v)]"
| "dict_set ((k, e) # d) key v = (if k = key then (key, v) # d else (k, e) # dict_set d key v)"


definition cleanup_memory_cache ::
  "(string \<times> 'v cache_entry) list \<Rightarrow> real \<Rightarrow> (string \<times> 'v cache_entry) list" where
  \<comment> \<open>expired entries are deleted; above 100 entries the 50 with the latest
      \<open>created_at\<close> are kept (\<open>sorted\<close> is stable, and so is \<open>sort_key\<close>)\<close>
  "cleanup_memory_cache d now =
     (let d1 = filter (\<lambda>(k, e). is_valid_cache_entry e now) d
      in if length d1 > 100
         then drop (length d1 - 50) (sort_key (\<lambda>(k, e). created_at e) d1)
         else d1)"

definition cache_set ::
  "'v smart_cache \<times> 'v redis \<Rightarrow> string \<Rightarrow> 'v \<Rightarrow> int \<Rightarrow> real \<Rightarrow> bool
   \<Rightarrow> 'v smart_cache \<times> 'v redis" where
  \<comment> \<open>\<open>SmartCache.set(key, data, ttl_seconds)\<close> at time \<open>now\<close>\<close>
  "cache_set cr key v ttl_seconds now answers =
     (case cr of (c, r) \<Rightarrow>
        let cached_data = \<lparr>data = v, expires_at = now + real_of_int ttl_seconds, created_at = now\<rparr>;
            r' = (if redis_client c \<and> answers
                  then r(key \<mapsto> (cached_data, now + real_of_int ttl_seconds)) else r)
        in (c\<lparr>memory_cache := cleanup_memory_cache (dict_set (memory_cache c) key cached_data) now\<rparr>,
            r'))"


definition new_cache :: "bool \<Rightarrow> 'v smart_cache" where
  \<comment> \<open>\<open>SmartCache()\<close>; the argument says whether Redis answered the ping\<close>
  "new_cache redis_up =
     \<lparr>redis_client = redis_up, memory_cache = [], hits = 0, misses = 0, redis_hits = 0,
      memory_hits = 0\<rparr>"

text \<open>
  The number of entries under other keys whose creation time is not before \<open>t\<close>, and
  the number of all such entries. On a clock that does not run backwards they are the
  entries written at the very time \<open>t\<close>.
\<close>

definition later_entries :: "real \<Rightarrow> string \<Rightarrow> (string \<times> 'v cache_entry) list \<Rightarrow> nat" where
  "later_entries t key d = length (filter (\<lambda>(k, e). k \<noteq> key \<and> t \<le> created_at e) d)"

definition entries_since :: "real \<Rightarrow> (string \<times> 'v cache_entry) list \<Rightarrow> nat" where
  "entries_since t d = length (filter (\<lambda>(k, e). t \<le> created_at e) d)"






section \<open>Background poller: the initial collection\<close>

text \<open>
  \<open>RouterBackgroundService._set_fallback_data\<close>, \<open>RouterConnection.test_connection\<close> and
  \<open>_initial_data_collection\<close>. The collection of the branch taken when the router
  answers is a parameter; the clock of the cache is the clock of the world.
\<close>

definition fallback_data :: "(string \<times> json) list" where
  "fallback_data =
     [(''router_interfaces'', JList []),
      (''pppoe_stats'',
         JDict [(''total'', JInt 0), (''active'', JInt 0), (''peak'', JInt 0),
                (''max_users'', JInt 0)]),
      (''system_metrics'',
         JDict [(''cpu'', JInt 0), (''memory'', JInt 0), (''uptime'', JStr ''Unknown''),
                (''version'', JStr ''Unknown''), (''serial'', JStr ''Unknown''),
                (''temperature'', JInt 0), (''power_status'', JStr ''Normal''),
                (''model'', JStr ''NE8000'')]),
      (''network_traffic'',
         JDict [(''inbound'', JFloat 0), (''outbound'', JFloat 0), (''total'', JFloat 0),
                (''peak_in'', JFloat 0), (''peak_out'', JFloat 0)])]"

fun set_all ::
  "json smart_cache \<times> json redis \<Rightarrow> (string \<times> json) list \<Rightarrow> real \<Rightarrow> (string \<Rightarrow> bool)
   \<Rightarrow> json smart_cache \<times> json redis" where
  "set_all cr [] now answers = cr"
| "set_all cr ((key, v) # items) now answers =
     set_all (cache_set cr key v 60 now (answers key)) items now answers"

definition set_fallback_data ::
  "json smart_cache \<times> json redis \<Rightarrow> real \<Rightarrow> (string \<Rightarrow> bool) \<Rightarrow> json smart_cache \<times> json redis" where
  "set_fallback_data cr now answers =
     cache_set (set_all cr fallback_data now answers) ''router_status''
       (JDict [(''online'', JBool False), (''last_error'', JStr ''Connection failed'')])
       60 now (answers ''router_status'')"

definition test_connection_body :: "device \<Rightarrow> world \<Rightarrow> (exn + bool) \<times> world" where
  "test_connection_body dev w =
     (let r = execute_commands dev [''display version''] w
      in (case outcome r of
            Inr result \<Rightarrow>
              Inr (case result of [] \<Rightarrow> False | first # rest \<Rightarrow> \<not> py_contains ''Error:'' first)
          | Inl e \<Rightarrow> Inr False,
          final r))"

definition test_connection :: "device \<Rightarrow> world \<Rightarrow> (bool, world) run" where
  "test_connection dev w = retry_on_failure (Some 2) None (test_connection_body dev) w"

record poller =
  router_cache :: "json smart_cache \<times> json redis"
  router :: world

definition initial_data_collection ::
  "device \<Rightarrow> (poller \<Rightarrow> poller) \<Rightarrow> (string \<Rightarrow> bool) \<Rightarrow> poller \<Rightarrow> exn + poller" where
  "initial_data_collection dev update_all answers st =
     (let t = test_connection dev (router st);
          st1 = st\<lparr>router := final t\<rparr>
      in case outcome t of
           Inl e \<Rightarrow> Inl e
         | Inr reachable \<Rightarrow>
             if \<not> reachable
             then Inr (st1\<lparr>router_cache :=
                          set_fallback_data (router_cache st1) (clock (router st1)) answers\<rparr>)
             else Inr (update_all st1))"

definition collection_time :: "device \<Rightarrow> poller \<Rightarrow> real" where
  "collection_time dev st = clock (final (test_connection dev (router st)))"

definition fallback_entry :: "json \<Rightarrow> real \<Rightarrow> json cache_entry" where
  "fallback_entry v now = \<lparr>data = v, expires_at = now + 60, created_at = now\<rparr>"

definition cold_poller :: poller where
  "cold_poller = \<lparr>router_cache = (new_cache False, Map.empty), router = idle_world\<rparr>"


section \<open>Properties of command normalisation\<close>


lemma optimize_loop_acc:
  "optimize_loop acc cmds = acc @ optimize_loop [] cmds"
proof (induction cmds arbitrary: acc)
  case Nil
  show ?case by simp
next
  case (Cons c cs)
  have a: "optimize_loop (acc @ [x]) cs = acc @ [x] @ optimize_loop [] cs" for x
    using Cons.IH [of "acc @ [x]"] by simp
  have b: "optimize_loop [x] cs = [x] @ optimize_loop [] cs" for x
    using Cons.IH [of "[x]"] by simp
  show ?case
    by (simp add: Let_def a b Cons.IH [of acc])
qed

lemma py_contains_append_left: "py_contains (a @ b) s \<Longrightarrow> py_contains a s"
  by (induction s) (auto simp: prefix_def)

lemma no_more_has_pipe: "py_contains ''| no-more'' s \<Longrightarrow> py_contains ''|'' s"
  using py_contains_append_left [of "''|''" "'' no-more''" s] by simp

lemma optimize_loop_map: "optimize_loop [] cmds = map add_no_more (filter (\<lambda>c. c \<noteq> []) (map py_strip cmds))"
proof (induction cmds)
  case Nil show ?case by simp
next
  case (Cons c cs)
  show ?case
    using Cons.IH no_more_has_pipe [of "py_strip c"]
    by (auto simp: Let_def add_no_more_def optimize_loop_acc [of "[x]" for x])
qed

text \<open>
  Claim C6, as the code has it. \<open>optimize_commands\<close> trims every command with
  \<open>strip()\<close>, drops the commands that are empty after trimming, keeps the others in
  their order, and appends \<open>' | no-more'\<close> to exactly the trimmed commands that start
  with \<open>display\<close> and contain no \<open>|\<close> character at all; every other command is
  passed on as trimmed.
\<close>

theorem optimize_commands_normalises:
  "optimize_commands commands =
     map add_no_more (filter (\<lambda>cmd. cmd \<noteq> []) (map py_strip commands))"
  by (simp add: optimize_commands_def optimize_loop_map)

text \<open>
  Claim C6 as stated fails: a \<open>display\<close> command with an output filter has no paging
  suppression, and the code still leaves it without the suffix, because of the pipe it
  contains. The command below is one the poller sends.
\<close>

theorem optimize_commands_counterexample:
  "py_startswith ''display'' ''display interface | include utilization''
   \<and> \<not> py_contains ''no-more'' ''display interface | include utilization''
   \<and> optimize_commands [''display interface | include utilization'']
       = [''display interface | include utilization'']"
  by (simp add: optimize_commands_def py_strip_def py_isspace_def py_startswith_def)


section \<open>Properties of output cleaning\<close>

lemma clean_lines_keep:
  "list_all (clean_line command) lines \<Longrightarrow>
   clean_lines command skip acc lines = acc @ lines"
  by (induction lines arbitrary: acc skip) (auto simp: clean_line_def Let_def)

lemma split_nonempty: "py_split_char sep s \<noteq> []"
  by (induction s) (auto split: list.splits)

lemma join_split: "py_join [sep] (py_split_char sep s) = s"
proof (induction s)
  case Nil show ?case by simp
next
  case (Cons x xs)
  obtain p ps where ps: "py_split_char sep xs = p # ps"
    using split_nonempty [of sep xs] by (cases "py_split_char sep xs") auto
  show ?case
  proof (cases "x = sep")
    case True
    then show ?thesis using Cons.IH ps by simp
  next
    case False
    then show ?thesis using Cons.IH ps by (cases ps) auto
  qed
qed

lemma split_sep_free: "sep \<notin> set x \<Longrightarrow> py_split_char sep x = [x]"
  by (induction x) auto

lemma split_append_sep:
  "sep \<notin> set x \<Longrightarrow> py_split_char sep (x @ sep # r) = x # py_split_char sep r"
  by (induction x) auto

lemma split_join:
  "ls \<noteq> [] \<Longrightarrow> \<forall>l \<in> set ls. sep \<notin> set l \<Longrightarrow> py_split_char sep (py_join [sep] ls) = ls"
proof (induction ls)
  case Nil then show ?case by simp
next
  case (Cons x xs)
  show ?case
  proof (cases xs)
    case Nil
    then show ?thesis using Cons.prems by (simp add: split_sep_free)
  next
    case (Cons y ys)
    then show ?thesis using Cons.IH Cons.prems by (simp add: split_append_sep)
  qed
qed

lemma strip_fix_iff:
  "py_strip s = s \<longleftrightarrow> (s = [] \<or> (\<not> py_isspace (hd s) \<and> \<not> py_isspace (last s)))"
proof (cases "s = []")
  case True then show ?thesis by (simp add: py_strip_def)
next
  case False
  show ?thesis
  proof (cases "py_isspace (hd s)")
    case True
    have "length (dropWhile py_isspace s) < length s"
      using False True by (cases s) (auto simp: le_imp_less_Suc length_dropWhile_le)
    moreover have "length (py_strip s) \<le> length (dropWhile py_isspace s)"
      unfolding py_strip_def
      using length_dropWhile_le [of py_isspace "rev (dropWhile py_isspace s)"] by simp
    ultimately have "py_strip s \<noteq> s" by auto
    then show ?thesis using True False by simp
  next
    case nh: False
    have d: "dropWhile py_isspace s = s" using False nh by (cases s) auto
    show ?thesis
    proof (cases "py_isspace (last s)")
      case True
      have "length (dropWhile py_isspace (rev s)) < length (rev s)"
        using False True by (cases "rev s") (auto simp: le_imp_less_Suc length_dropWhile_le last_rev hd_rev)
      then have "py_strip s \<noteq> s" unfolding py_strip_def d
        by (metis length_rev nat_neq_iff)
      then show ?thesis using True False by simp
    next
      case nl: False
      have "dropWhile py_isspace (rev s) = rev s"
        using False nl by (cases "rev s") (auto simp: hd_rev)
      then show ?thesis using False nh nl d by (simp add: py_strip_def)
    qed
  qed
qed

lemma hd_join: "x \<noteq> [] \<Longrightarrow> hd (py_join sep (x # xs)) = hd x"
  by (cases xs) auto

lemma join_nonempty: "xs \<noteq> [] \<Longrightarrow> last xs \<noteq> [] \<Longrightarrow> py_join sep xs \<noteq> []"
  by (induction sep xs rule: py_join.induct) auto

lemma last_join: "xs \<noteq> [] \<Longrightarrow> last xs \<noteq> [] \<Longrightarrow> last (py_join sep xs) = last (last xs)"
proof (induction sep xs rule: py_join.induct)
  case (3 sep x y ys)
  have "py_join sep (y # ys) \<noteq> []" using 3 join_nonempty [of "y # ys" sep] by simp
  then show ?case using 3 by simp
qed auto

lemma strip_join:
  assumes "list_all (\<lambda>l. l \<noteq> [] \<and> py_strip l = l) ls"
  shows "py_strip (py_join sep ls) = py_join sep ls"
proof (cases ls)
  case Nil then show ?thesis by (simp add: py_strip_def)
next
  case (Cons x xs)
  have x: "x \<noteq> []" "py_strip x = x" using assms Cons by auto
  have l: "last ls \<noteq> []" "py_strip (last ls) = last ls"
    using assms Cons by (auto simp: list_all_iff)
  have "\<not> py_isspace (hd x)" using x strip_fix_iff [of x] by simp
  moreover have "\<not> py_isspace (last (last ls))" using l strip_fix_iff [of "last ls"] by simp
  ultimately show ?thesis
    using strip_fix_iff [of "py_join sep ls"] hd_join [OF x(1), of sep xs] 
      last_join [of ls sep] l(1) Cons by simp
qed

lemma clean_fix:
  assumes "clean_output command out"
  shows "clean_ssh_output out command = out"
proof (cases "out = []")
  case True
  then show ?thesis by (simp add: clean_ssh_output_def py_strip_def)
next
  case False
  then have ok: "list_all (clean_line command) (py_split_char (CHR 0x0A) out)"
    using assms by (simp add: clean_output_def)
  have st: "list_all (\<lambda>l. l \<noteq> [] \<and> py_strip l = l) (py_split_char (CHR 0x0A) out)"
    using ok by (simp add: list_all_iff clean_line_def)
  have "clean_lines command True [] (py_split_char (CHR 0x0A) out) = py_split_char (CHR 0x0A) out"
    using clean_lines_keep [OF ok, of True "[]"] by simp
  then show ?thesis
    using strip_join [OF st, of "[CHR 0x0A]"] join_split [of "CHR 0x0A" out]
    by (simp add: clean_ssh_output_def)
qed

lemma last_dropWhile_eq: "dropWhile P xs \<noteq> [] \<Longrightarrow> last (dropWhile P xs) = last xs"
  by (induction xs) (auto split: if_splits)

lemma strip_idem: "py_strip (py_strip x) = py_strip x"
proof (cases "py_strip x = []")
  case True
  have "py_strip [] = []" by (simp add: py_strip_def)
  then show ?thesis using True by simp
next
  case False
  let ?d = "dropWhile py_isspace x"
  let ?e = "dropWhile py_isspace (rev ?d)"
  have e: "?e \<noteq> []" using False by (simp add: py_strip_def)
  have d: "?d \<noteq> []"
  proof
    assume "?d = []"
    then have "?e = dropWhile py_isspace (rev [])" by (rule arg_cong)
    then show False using e by simp
  qed
  have "\<not> py_isspace (hd ?e)" using e hd_dropWhile by metis
  then have l: "\<not> py_isspace (last (py_strip x))" using e by (simp add: py_strip_def last_rev)
  have "last ?e = last (rev ?d)" using e last_dropWhile_eq by metis
  then have "last ?e = hd ?d" using d by (simp add: last_rev)
  moreover have "\<not> py_isspace (hd ?d)" using d hd_dropWhile by metis
  ultimately have h: "\<not> py_isspace (hd (py_strip x))" using e by (simp add: py_strip_def hd_rev)
  show ?thesis using strip_fix_iff [of "py_strip x"] h l by simp
qed

lemma set_strip: "set (py_strip x) \<subseteq> set x"
proof
  fix c assume "c \<in> set (py_strip x)"
  then have "c \<in> set (dropWhile py_isspace (rev (dropWhile py_isspace x)))"
    by (simp add: py_strip_def)
  then have "c \<in> set (rev (dropWhile py_isspace x))" by (rule set_dropWhileD)
  then have "c \<in> set (dropWhile py_isspace x)" by simp
  then show "c \<in> set x" by (rule set_dropWhileD)
qed

lemma split_sep_free_elems: "l \<in> set (py_split_char sep s) \<Longrightarrow> sep \<notin> set l"
  by (induction s arbitrary: l) (auto split: if_splits list.splits)

lemma clean_lines_kept:
  "list_all kept_line acc \<Longrightarrow> \<forall>l \<in> set lines. CHR 0x0A \<notin> set l \<Longrightarrow>
   list_all kept_line (clean_lines command skip acc lines)"
proof (induction lines arbitrary: acc skip)
  case Nil then show ?case by simp
next
  case (Cons a lines)
  have nl: "CHR 0x0A \<notin> set (py_strip a)" using Cons.prems(2) set_strip [of a] by auto
  show ?case using Cons nl by (auto simp: Let_def kept_line_def strip_idem)
qed

lemma clean_idem:
  assumes "echo_free command (clean_ssh_output out command)"
  shows "clean_ssh_output (clean_ssh_output out command) command = clean_ssh_output out command"
proof -
  let ?L = "clean_lines command True [] (py_split_char (CHR 0x0A) out)"
  have k: "list_all kept_line ?L"
    using clean_lines_kept [of "[]" "py_split_char (CHR 0x0A) out" command True]
      split_sep_free_elems [of _ "CHR 0x0A" out] by auto
  then have st: "list_all (\<lambda>l. l \<noteq> [] \<and> py_strip l = l) ?L"
    by (simp add: list_all_iff kept_line_def)
  have r: "clean_ssh_output out command = py_join [CHR 0x0A] ?L"
    using strip_join [OF st, of "[CHR 0x0A]"] by (simp add: clean_ssh_output_def)
  show ?thesis
  proof (cases "?L = []")
    case True
    then have "clean_ssh_output out command = []" using r by simp
    then show ?thesis using clean_fix [of command "[]"] by (simp add: clean_output_def)
  next
    case False
    have "py_split_char (CHR 0x0A) (py_join [CHR 0x0A] ?L) = ?L"
      using split_join [OF False, of "CHR 0x0A"] k by (auto simp: list_all_iff kept_line_def)
    then have "list_all (clean_line command) (py_split_char (CHR 0x0A) (clean_ssh_output out command))"
      using k assms r by (auto simp: list_all_iff kept_line_def clean_line_def echo_free_def)
    then show ?thesis using clean_fix [of command "clean_ssh_output out command"]
      by (simp add: clean_output_def)
  qed
qed

text \<open>
  Claim C9, as the code has it. Cleaning returns its input unchanged when the input is
  empty or every line of it is non-empty, carries no leading or trailing whitespace, does
  not end in one of \<open>> # ] <\<close> and does not contain the trimmed command. Cleaning the
  result of a previous clean with the same command is the identity provided no line of
  that result contains the trimmed command.
\<close>

theorem clean_ssh_output_on_clean:
  "(clean_output command out \<longrightarrow> clean_ssh_output out command = out) \<and>
   (echo_free command (clean_ssh_output out command) \<longrightarrow>
      clean_ssh_output (clean_ssh_output out command) command = clean_ssh_output out command)"
  using clean_fix clean_idem by blast

lemmas clean_eval = clean_ssh_output_def py_strip_def py_isspace_def is_prompt_line_def py_endswith_def
  clean_output_def echo_free_def clean_line_def

theorem clean_ssh_output_on_clean_witness:
  "clean_output ''display version'' ''Huawei VRP\<newline>NE8000 uptime 3 days''
   \<and> clean_ssh_output ''Huawei VRP\<newline>NE8000 uptime 3 days'' ''display version''
       = ''Huawei VRP\<newline>NE8000 uptime 3 days''
   \<and> echo_free ''display version''
        (clean_ssh_output ''display version\<newline>Huawei VRP\<newline><NE8000>'' ''display version'')
   \<and> clean_ssh_output
        (clean_ssh_output ''display version\<newline>Huawei VRP\<newline><NE8000>'' ''display version'')
        ''display version''
       = ''Huawei VRP''"
proof -
  have a: "clean_output ''display version'' ''Huawei VRP\<newline>NE8000 uptime 3 days''"
    by (simp add: clean_eval)
  have c: "clean_ssh_output ''display version\<newline>Huawei VRP\<newline><NE8000>'' ''display version'' = ''Huawei VRP''"
    by (simp add: clean_eval)
  have b: "echo_free ''display version''
        (clean_ssh_output ''display version\<newline>Huawei VRP\<newline><NE8000>'' ''display version'')"
    unfolding c by (simp add: clean_eval)
  show ?thesis
    using a b c clean_ssh_output_on_clean [of "''display version''" "''Huawei VRP\<newline>NE8000 uptime 3 days''"]
      clean_ssh_output_on_clean [of "''display version''" "''display version\<newline>Huawei VRP\<newline><NE8000>''"]
    by simp
qed

text \<open>
  Claim C9 as stated fails. An output with an indented line and a blank line holds no
  echoed command and no prompt line, and cleaning changes it; and an output in which the
  command occurs on two lines loses one of them at each clean, so a second clean is not
  the identity.
\<close>

theorem clean_ssh_output_counterexample:
  "echo_free ''display x'' ''  up 1\<newline>\<newline>down''
   \<and> \<not> is_prompt_line ''down''
   \<and> clean_ssh_output ''  up 1\<newline>\<newline>down'' ''display x'' \<noteq> ''  up 1\<newline>\<newline>down''
   \<and> clean_ssh_output ''display x\<newline>display x\<newline>up'' ''display x'' = ''display x\<newline>up''
   \<and> clean_ssh_output ''display x\<newline>up'' ''display x'' = ''up''"
  by (simp add: clean_eval)


section \<open>Properties of the retry wrapper\<close>









section \<open>Properties of the connection pool\<close>

lemma cleanup_take_eq:
  "cleanup_take queue acts w =
     (acts @ filter (keepable (clock w)) queue,
      w\<lparr>pool := [],
        closed := closed w @ map connection (filter (\<lambda>ci. \<not> keepable (clock w) ci) queue)\<rparr>)"
  by (induction queue arbitrary: acts w) (auto simp: keepable_def close_connection_def)

lemma cleanup_put_pool:
  "x \<in> set (pool (cleanup_put acts w)) \<Longrightarrow> x \<in> set (pool w) \<or> x \<in> set acts"
proof (induction acts arbitrary: w)
  case Nil then show ?case by simp
next
  case (Cons a acts)
  show ?case
  proof (cases "put_nowait a w")
    case None
    then have "x \<in> set (pool (cleanup_put acts (close_connection a w)))"
      using Cons.prems by simp
    from Cons.IH [OF this] show ?thesis by (auto simp: close_connection_def)
  next
    case (Some w')
    then have "x \<in> set (pool (cleanup_put acts w'))" using Cons.prems by simp
    from Cons.IH [OF this] show ?thesis
      using Some by (auto simp: put_nowait_def split: if_splits)
  qed
qed

lemma cleanup_put_closed:
  "x \<in> set (closed w) \<Longrightarrow> x \<in> set (closed (cleanup_put acts w))"
proof (induction acts arbitrary: w)
  case Nil then show ?case by simp
next
  case (Cons a acts)
  show ?case
  proof (cases "put_nowait a w")
    case None
    have "x \<in> set (closed (close_connection a w))"
      using Cons.prems by (simp add: close_connection_def)
    from Cons.IH [OF this] show ?thesis using None by simp
  next
    case (Some w')
    then have "x \<in> set (closed w')"
      using Cons.prems by (auto simp: put_nowait_def split: if_splits)
    from Cons.IH [OF this] show ?thesis using Some by simp
  qed
qed

lemma cleanup_pool_kept:
  assumes "ci \<in> set (pool (cleanup_expired_connections w))"
  shows "ci \<in> set (pool w) \<and> keepable (clock w) ci"
proof -
  let ?w = "w\<lparr>pool := [],
        closed := closed w @ map connection (filter (\<lambda>ci. \<not> keepable (clock w) ci) (pool w))\<rparr>"
  have "ci \<in> set (pool (cleanup_put (filter (keepable (clock w)) (pool w)) ?w))"
    using assms by (simp add: cleanup_expired_connections_def cleanup_take_eq)
  from cleanup_put_pool [OF this] show ?thesis by simp
qed

lemma cleanup_closes:
  assumes "ci \<in> set (pool w)" and "\<not> keepable (clock w) ci"
  shows "connection ci \<in> set (closed (cleanup_expired_connections w))"
proof -
  let ?w = "w\<lparr>pool := [],
        closed := closed w @ map connection (filter (\<lambda>ci. \<not> keepable (clock w) ci) (pool w))\<rparr>"
  have "connection ci \<in> set (closed ?w)" using assms by auto
  from cleanup_put_closed [OF this, of "filter (keepable (clock w)) (pool w)"]
  show ?thesis
    by (simp add: cleanup_expired_connections_def cleanup_take_eq)
qed

lemma acquire_yield:
  assumes "acquire dev w = (Inr ci, w')"
  shows "(\<exists>p queue. pool w = p # queue \<and> \<not> is_expired p (clock w) \<and> ci = mark_used p (clock w))
       \<or> (conn_created_at ci = clock w' \<and> connection ci = opened w \<and> usage_count ci = 1)"
  using assms
  by (auto simp: acquire_def create_new_connection_def close_connection_def tick_def mark_used_def
           Let_def split: list.splits if_splits prod.splits option.splits sum.splits)

lemma acquire_expired_head:
  assumes "pool w = p # queue" and "is_expired p (clock w)"
  shows "connection p \<in> set (closed (snd (acquire dev w))) \<and> pool (snd (acquire dev w)) = queue
       \<and> (\<forall>ci. fst (acquire dev w) = Inr ci \<longrightarrow> connection ci = opened w
                \<and> conn_created_at ci = clock (snd (acquire dev w)))"
  using assms
  by (auto simp: acquire_def create_new_connection_def close_connection_def tick_def mark_used_def
           Let_def split: list.splits if_splits prod.splits option.splits sum.splits)

lemma release_expired:
  assumes "is_expired ci (clock w)"
  shows "pool (release raised ci w) = pool w \<and> connection ci \<in> set (closed (release raised ci w))"
  using assms
  by (auto simp: release_def close_connection_def is_expired_def Let_def)

text \<open>
  Claim C4. A connection is expired when it was idle for more than \<open>idle_timeout\<close>
  (300 s) or is older than \<open>max_age\<close> (1800 s). \<open>get_connection\<close> yields either
  the head of the queue, which was not expired when it was taken, or a connection it has
  just created; an expired head is closed and dropped, and a new connection is made.
  The cleanup sweep closes every expired connection of the queue and keeps none of them.
  On the way back, an expired connection is closed and not queued again.
\<close>

theorem pool_never_yields_expired:
  "(acquire dev w = (Inr ci, w') \<longrightarrow>
      (\<exists>p queue. pool w = p # queue \<and> \<not> is_expired p (clock w) \<and> ci = mark_used p (clock w))
      \<or> (conn_created_at ci = clock w' \<and> connection ci = opened w \<and> usage_count ci = 1))
   \<and> (pool w = p # queue \<and> is_expired p (clock w) \<longrightarrow>
        connection p \<in> set (closed (snd (acquire dev w))) \<and> pool (snd (acquire dev w)) = queue)
   \<and> (q \<in> set (pool w) \<and> is_expired q (clock w) \<longrightarrow>
        connection q \<in> set (closed (cleanup_expired_connections w))
        \<and> q \<notin> set (pool (cleanup_expired_connections w)))
   \<and> (is_expired r (clock w) \<longrightarrow>
        pool (release raised r w) = pool w \<and> connection r \<in> set (closed (release raised r w)))"
  using acquire_yield [of dev w ci w'] acquire_expired_head [of w p queue dev]
    cleanup_closes [of q w] cleanup_pool_kept [of q w] release_expired [of r w raised]
  by (auto simp: keepable_def)

theorem pool_never_yields_expired_witness:
  "is_expired stale_conn (clock stale_world)
   \<and> stale_conn \<in> set (pool stale_world)
   \<and> acquire reachable_device stale_world
       = (Inr \<lparr>connection = 1, protocol = SSH, conn_created_at = 1001, last_used = 1001,
               is_healthy = True, usage_count = 1\<rparr>,
          \<lparr>clock = 1001, pool = [], closed = [0], opened = 2, sent = []\<rparr>)
   \<and> 0 \<in> set (closed (cleanup_expired_connections stale_world))
   \<and> stale_conn \<notin> set (pool (cleanup_expired_connections stale_world))
   \<and> pool (release False stale_conn stale_world) = pool stale_world
   \<and> 0 \<in> set (closed (release False stale_conn stale_world))"
proof -
  have e: "is_expired stale_conn (clock stale_world)"
    by (simp add: is_expired_def stale_conn_def stale_world_def idle_timeout_def)
  have p: "pool stale_world = stale_conn # []" by (simp add: stale_world_def)
  have m: "stale_conn \<in> set (pool stale_world)" by (simp add: stale_world_def)
  have a: "acquire reachable_device stale_world =
      (Inr \<lparr>connection = 1, protocol = SSH, conn_created_at = 1001, last_used = 1001,
              is_healthy = True, usage_count = 1\<rparr>,
       \<lparr>clock = 1001, pool = [], closed = [0], opened = 2, sent = []\<rparr>)"
    by (simp add: acquire_def stale_world_def stale_conn_def reachable_device_def is_expired_def
        idle_timeout_def max_age_def close_connection_def create_new_connection_def tick_def
        mark_used_def Let_def)
  have c: "connection stale_conn = 0" by (simp add: stale_conn_def)
  show ?thesis
    using pool_never_yields_expired [of reachable_device stale_world
        "\<lparr>connection = 1, protocol = SSH, conn_created_at = 1001, last_used = 1001,
          is_healthy = True, usage_count = 1\<rparr>"
        "\<lparr>clock = 1001, pool = [], closed = [0], opened = 2, sent = []\<rparr>"
        stale_conn "[]" stale_conn stale_conn False] e p m a c
    by simp
qed


section \<open>Properties of the command executor\<close>

lemmas executor_eval =
  execute_commands_def retry_on_failure_def configured_attempts_def configured_delay_def
  RETRY_max_attempts_def RETRY_base_delay_def RETRY_max_delay_def RETRY_backoff_multiplier_def
  retry_delay_def raise_last_def with_timeout_def TIMEOUT_command_def execute_commands_body_def
  acquire_def release_def create_new_connection_def close_connection_def put_nowait_def
  max_connections_def tick_def mark_used_def is_expired_def idle_timeout_def max_age_def
  test_connection_health_def execute_ssh_commands_def execute_telnet_commands_def
  optimize_commands_def py_strip_def py_isspace_def py_startswith_def
  clean_ssh_output_def is_prompt_line_def py_endswith_def Let_def

text \<open>
  Claim C2, evaluated where the code departs from it: a batch of three commands on a
  session whose transport raises at the second one. The third command is not sent and the
  caller gets the single error string, but the exception is caught inside
  \<open>execute_commands\<close>, so the retry wrapper sees a normal return: the batch runs once
  and is not attempted again.
\<close>

theorem execute_commands_no_retry_on_transport_failure:
  "outcome (execute_commands flaky_device [''display a'', ''display b'', ''display c''] idle_world)
     = Inr [''Error: Socket is closed'']
   \<and> invocations (execute_commands flaky_device [''display a'', ''display b'', ''display c''] idle_world) = 1
   \<and> sleeps (execute_commands flaky_device [''display a'', ''display b'', ''display c''] idle_world) = []
   \<and> sent (final (execute_commands flaky_device [''display a'', ''display b'', ''display c''] idle_world))
     = [(0, ''display a | no-more''), (0, ''display b | no-more'')]"
  by (simp add: executor_eval retry_loop.simps flaky_device_def idle_world_def)













section \<open>Properties of the parsers\<close>

lemmas parser_eval = parse_pppoe_stats_optimized_def py_strip_def py_isspace_def py_lower_def
  py_lower_char_def py_isupper_char_def py_split_def py_isdigit_def py_isdigit_char_def
  py_int_def is_decimal_char_def Let_def parse_interface_output_optimized_def interface_record_def

lemma parse_pppoe_stats_example: "parse_pppoe_stats_optimized ''t'' [''Total users: 37 \<newline>Active Sessions 12'']
  = Inr \<lparr>total = 37, active = 12, peak = 0, authenticated = 0, last_update = ''t''\<rparr>"
  by (simp add: parser_eval)

text \<open>
  Claim C8, evaluated where the code departs from it. \<open>isdigit()\<close> holds for the
  superscript two (U+00B2) and \<open>int()\<close> rejects it, so a statistics line whose first
  digit-like word is that character makes \<open>parse_pppoe_stats_optimized\<close> raise
  ValueError.
\<close>

theorem parse_pppoe_stats_raises:
  "parse_pppoe_stats_optimized now [''Total users '' @ [CHR 0xB2]]
     = Inl (ValueError (''invalid literal for int() with base 10: '' @ [CHR 0x27, CHR 0xB2, CHR 0x27]))"
  by (simp add: parser_eval)

lemma parse_interface_output_example: "parse_interface_output_optimized ''t'' ''Interface PHY Protocol\<newline>GE0/0/1 up up 10.0.0.1 uplink to core\<newline>GE0/0/2 down''
  = [JDict [(''name'', JStr ''GE0/0/1''), (''status'', JStr ''up''), (''protocol'', JStr ''up''),
       (''ip_address'', JStr ''10.0.0.1''), (''description'', JStr ''uplink to core''),
       (''utilization_in'', JInt 0), (''utilization_out'', JInt 0), (''last_update'', JStr ''t'')]]"
  by (simp add: parser_eval)

text \<open>
  What does hold of the parsers: empty and error-tagged input gives the empty list and the
  zeroed record, and the statistics parser returns on every input without superscript
  digits. The interface parser has no raising step at all.
\<close>

lemma parse_interface_error_tagged:
  "output = [] \<or> py_contains ''Error:'' output \<Longrightarrow> parse_interface_output_optimized now output = []"
  by (auto simp: parse_interface_output_optimized_def)

lemma pppoe_results_skipped:
  "list_all (\<lambda>r. r = [] \<or> py_contains ''Error:'' r) results \<Longrightarrow> pppoe_results stats results = Inr stats"
  by (induction results) auto

lemma parse_pppoe_error_tagged:
  "list_all (\<lambda>r. r = [] \<or> py_contains ''Error:'' r) results \<Longrightarrow>
   parse_pppoe_stats_optimized now results
     = Inr \<lparr>total = 0, active = 0, peak = 0, authenticated = 0, last_update = now\<rparr>"
  by (simp add: parse_pppoe_stats_optimized_def pppoe_results_skipped)

lemma lower_not_superscript:
  "\<not> is_superscript_char c \<Longrightarrow> \<not> is_superscript_char (py_lower_char c)"
  by (cases c) (auto simp: is_superscript_char_def py_lower_char_def py_isupper_char_def Let_def)

lemma plain_lower: "plain s \<Longrightarrow> plain (py_lower s)"
  by (induction s) (auto simp: plain_def py_lower_def lower_not_superscript)

lemma plain_strip: "plain s \<Longrightarrow> plain (py_strip s)"
  using set_strip [of s] by (auto simp: plain_def list_all_iff)

lemma plain_split_char: "plain s \<Longrightarrow> l \<in> set (py_split_char sep s) \<Longrightarrow> plain l"
  by (induction s arbitrary: l) (auto simp: plain_def split: if_splits list.splits)

lemma plain_split_ws: "plain cur \<Longrightarrow> plain s \<Longrightarrow> p \<in> set (split_ws cur s) \<Longrightarrow> plain p"
  by (induction cur s arbitrary: p rule: split_ws.induct) (auto simp: plain_def split: if_splits)

lemma first_digit_part_plain:
  "\<forall>p \<in> set parts. plain p \<Longrightarrow> first_digit_part parts = Some part \<Longrightarrow>
   plain part \<and> py_isdigit part"
  by (induction parts) (auto split: if_splits)

lemma py_int_plain_digit: "plain part \<Longrightarrow> py_isdigit part \<Longrightarrow> \<exists>v. py_int part = Inr v"
  by (auto simp: py_int_def py_isdigit_def plain_def list_all_iff is_decimal_char_def
      py_isdigit_char_def is_superscript_char_def Let_def)

lemma pppoe_lines_plain:
  "\<forall>l \<in> set lines. plain l \<Longrightarrow> \<exists>stats'. pppoe_lines stats lines = Inr stats'"
proof (induction lines arbitrary: stats)
  case Nil then show ?case by simp
next
  case (Cons line lines)
  let ?l = "py_lower (py_strip line)"
  have pl: "plain ?l" using Cons.prems by (simp add: plain_lower plain_strip)
  have parts: "\<forall>p \<in> set (py_split ?l). plain p"
    using plain_split_ws [of "[]" ?l] pl by (auto simp: py_split_def plain_def)
  have rest: "\<And>s. \<exists>stats'. pppoe_lines s lines = Inr stats'" using Cons by simp
  show ?case
  proof (cases "first_digit_part (py_split ?l)")
    case None
    then show ?thesis using rest by (simp add: Let_def)
  next
    case (Some part)
    obtain v where v: "py_int part = Inr v"
      using first_digit_part_plain [OF parts Some] py_int_plain_digit by blast
    show ?thesis using Some v rest by (simp add: Let_def)
  qed
qed

lemma pppoe_results_plain:
  "\<forall>r \<in> set results. plain r \<Longrightarrow> \<exists>stats'. pppoe_results stats results = Inr stats'"
proof (induction results arbitrary: stats)
  case Nil then show ?case by simp
next
  case (Cons r results)
  have "\<forall>l \<in> set (py_split_char (CHR 0x0A) r). plain l"
    using Cons.prems plain_split_char [of r] by auto
  then obtain s1 where "pppoe_lines stats (py_split_char (CHR 0x0A) r) = Inr s1"
    using pppoe_lines_plain by blast
  then show ?case using Cons by auto
qed

lemma parse_pppoe_plain_returns:
  "\<forall>r \<in> set results. plain r \<Longrightarrow> \<exists>stats. parse_pppoe_stats_optimized now results = Inr stats"
  by (simp add: parse_pppoe_stats_optimized_def pppoe_results_plain)


section \<open>Properties of the cache and of the poller's fallback\<close>


lemma length_filter_sort: "length (filter P (sort_key f xs)) = length (filter P xs)"
proof -
  have "mset (filter P (sort_key f xs)) = mset (filter P xs)" by simp
  then show ?thesis by (metis size_mset)
qed

lemma in_last_of_sorted:
  assumes x: "x \<in> set xs" and c: "length (filter (\<lambda>y. f x \<le> f y) xs) \<le> m"
  shows "x \<in> set (drop (length xs - m) (sort_key f xs))"
proof (rule ccontr)
  let ?ys = "sort_key f xs"
  let ?n = "length xs - m"
  let ?P = "\<lambda>y. f x \<le> f y"
  assume n: "x \<notin> set (drop ?n ?ys)"
  have "x \<in> set ?ys" using x by simp
  then have "x \<in> set (take ?n ?ys @ drop ?n ?ys)" by simp
  then have t: "x \<in> set (take ?n ?ys)" using n by (simp del: append_take_drop_id)
  then have pos: "0 < ?n" by (cases ?n) auto
  have "sorted (map f (take ?n ?ys @ drop ?n ?ys))" by (simp add: sorted_sort_key)
  then have "\<forall>a \<in> set (take ?n ?ys). \<forall>b \<in> set (drop ?n ?ys). f a \<le> f b"
    unfolding map_append sorted_append by auto
  then have all: "\<forall>b \<in> set (drop ?n ?ys). ?P b" using t by blast
  have d: "length (filter ?P (drop ?n ?ys)) = m"
  proof -
    have "filter ?P (drop ?n ?ys) = drop ?n ?ys" using all by (simp add: filter_id_conv)
    then show ?thesis using pos by simp
  qed
  have "filter ?P (take ?n ?ys) \<noteq> []" using t by (auto simp: filter_empty_conv)
  then have tk: "0 < length (filter ?P (take ?n ?ys))" by simp
  have "length (filter ?P ?ys) = length (filter ?P (take ?n ?ys)) + length (filter ?P (drop ?n ?ys))"
    by (metis append_take_drop_id filter_append length_append)
  then have "m < length (filter ?P ?ys)" using d tk by simp
  then show False using c by (simp add: length_filter_sort)
qed

lemma dict_set_keys: "fst ` set (dict_set d key v) \<subseteq> insert key (fst ` set d)"
proof (induction d)
  case Nil then show ?case by simp
next
  case (Cons a d)
  obtain k e where a: "a = (k, e)" by (cases a)
  show ?case
  proof (cases "k = key")
    case True then show ?thesis using a by auto
  next
    case False
    have "fst ` set ((k, e) # dict_set d key v) \<subseteq> insert k (insert key (fst ` set d))"
      using Cons.IH by auto
    then show ?thesis using a False by auto
  qed
qed

lemma dict_set_distinct: "distinct (map fst d) \<Longrightarrow> distinct (map fst (dict_set d key v))"
proof (induction d)
  case Nil then show ?case by simp
next
  case (Cons a d)
  obtain k e where a: "a = (k, e)" by (cases a)
  show ?case
  proof (cases "k = key")
    case True then show ?thesis using Cons.prems a by simp
  next
    case False
    have "k \<notin> fst ` set (dict_set d key v)"
      using dict_set_keys [of d key v] False Cons.prems a by auto
    then show ?thesis using Cons a False by simp
  qed
qed

lemma dict_set_member: "(key, v) \<in> set (dict_set d key v)"
  by (induction d) auto

lemma dict_set_others:
  "distinct (map fst d) \<Longrightarrow>
   length (filter Q (dict_set d key v))
     \<le> Suc (length (filter (\<lambda>(k, e). k \<noteq> key \<and> Q (k, e)) d))"
proof (induction d)
  case Nil then show ?case by simp
next
  case (Cons a d)
  obtain k e where a: "a = (k, e)" by (cases a)
  show ?case
  proof (cases "k = key")
    case True
    then have "\<forall>(k', e') \<in> set d. k' \<noteq> key" using Cons.prems a by force
    then have "filter Q d = filter (\<lambda>(k, e). k \<noteq> key \<and> Q (k, e)) d"
      by (intro filter_cong) auto
    then show ?thesis using a True by simp
  next
    case False
    then show ?thesis using Cons a by auto
  qed
qed

lemma cleanup_keeps:
  assumes dist: "distinct (map fst d)" and mem: "(key, entry) \<in> set d"
    and valid: "is_valid_cache_entry entry now"
    and cnt: "length (filter (\<lambda>(k, e). created_at entry \<le> created_at e) d) \<le> 50"
  shows "map_of (cleanup_memory_cache d now) key = Some entry"
    and "distinct (map fst (cleanup_memory_cache d now))"
proof -
  let ?d1 = "filter (\<lambda>(k, e). is_valid_cache_entry e now) d"
  let ?f = "\<lambda>(k, e). created_at e"
  have d1: "distinct (map fst ?d1)" using dist by (rule distinct_map_filter)
  have m1: "(key, entry) \<in> set ?d1" using mem valid by simp
  have "filter (\<lambda>y. ?f (key, entry) \<le> ?f y) ?d1
          = filter (\<lambda>(k, e). is_valid_cache_entry e now) (filter (\<lambda>y. ?f (key, entry) \<le> ?f y) d)"
    by (simp add: conj_commute)
  then have "length (filter (\<lambda>y. ?f (key, entry) \<le> ?f y) ?d1)
          \<le> length (filter (\<lambda>y. ?f (key, entry) \<le> ?f y) d)"
    by (metis length_filter_le)
  also have "\<dots> \<le> 50" using cnt by (simp add: case_prod_unfold)
  finally have c1: "length (filter (\<lambda>y. ?f (key, entry) \<le> ?f y) ?d1) \<le> 50" .
  have m2: "(key, entry) \<in> set (drop (length ?d1 - 50) (sort_key ?f ?d1))"
    by (rule in_last_of_sorted [OF m1 c1])
  have "mset (map fst (sort_key ?f ?d1)) = mset (map fst ?d1)" by simp
  then have "distinct (map fst (sort_key ?f ?d1))"
    using d1 mset_eq_imp_distinct_iff by blast
  then have d2: "distinct (map fst (drop (length ?d1 - 50) (sort_key ?f ?d1)))"
    by (simp add: drop_map [symmetric])
  show "map_of (cleanup_memory_cache d now) key = Some entry"
    using d1 m1 d2 m2 by (auto simp: cleanup_memory_cache_def Let_def)
  show "distinct (map fst (cleanup_memory_cache d now))"
    using d1 d2 by (auto simp: cleanup_memory_cache_def Let_def)
qed

lemma cache_set_local:
  assumes dist: "distinct (map fst (memory_cache c))"
    and ttl: "0 < ttl"
    and cnt: "later_entries now key (memory_cache c) < 50"
  shows "map_of (memory_cache (fst (cache_set (c, r) key v ttl now answers))) key
           = Some \<lparr>data = v, expires_at = now + real_of_int ttl, created_at = now\<rparr>"
    and "distinct (map fst (memory_cache (fst (cache_set (c, r) key v ttl now answers))))"
proof -
  let ?e = "\<lparr>data = v, expires_at = now + real_of_int ttl, created_at = now\<rparr>"
  let ?d = "dict_set (memory_cache c) key ?e"
  have d: "distinct (map fst ?d)" using dist by (rule dict_set_distinct)
  have m: "(key, ?e) \<in> set ?d" by (rule dict_set_member)
  have v: "is_valid_cache_entry ?e now" using ttl by (simp add: is_valid_cache_entry_def)
  have "length (filter (\<lambda>(k, e). created_at ?e \<le> created_at e) ?d)
          \<le> Suc (later_entries now key (memory_cache c))"
    using dict_set_others [OF dist, of "\<lambda>(k, e). created_at ?e \<le> created_at e" key ?e]
    by (simp add: later_entries_def case_prod_unfold)
  then have c: "length (filter (\<lambda>(k, e). created_at ?e \<le> created_at e) ?d) \<le> 50"
    using cnt by simp
  show "map_of (memory_cache (fst (cache_set (c, r) key v ttl now answers))) key = Some ?e"
    using cleanup_keeps(1) [OF d m v c] by (simp add: cache_set_def Let_def)
  show "distinct (map fst (memory_cache (fst (cache_set (c, r) key v ttl now answers))))"
    using cleanup_keeps(2) [OF d m v c] by (simp add: cache_set_def Let_def)
qed
















lemma length_filter_drop_le: "length (filter P (drop n xs)) \<le> length (filter P xs)"
proof -
  have "length (filter P xs) = length (filter P (take n xs)) + length (filter P (drop n xs))"
    by (metis append_take_drop_id filter_append length_append)
  then show ?thesis by simp
qed

lemma cleanup_count: "length (filter P (cleanup_memory_cache d now)) \<le> length (filter P d)"
proof -
  let ?d1 = "filter (\<lambda>(k, e). is_valid_cache_entry e now) d"
  have a: "length (filter P ?d1) \<le> length (filter P d)"
  proof -
    have "filter P ?d1 = filter (\<lambda>(k, e). is_valid_cache_entry e now) (filter P d)"
      by (simp add: conj_commute)
    then show ?thesis by (metis length_filter_le)
  qed
  have "length (filter P (drop n (sort_key f ?d1))) \<le> length (filter P ?d1)" for n f
    using length_filter_drop_le [of P n "sort_key f ?d1"] by (simp add: length_filter_sort)
  then show ?thesis using a
    by (auto simp: cleanup_memory_cache_def Let_def intro: order_trans)
qed

lemma cleanup_distinct:
  assumes "distinct (map fst d)"
  shows "distinct (map fst (cleanup_memory_cache d now))"
proof -
  let ?d1 = "filter (\<lambda>(k, e). is_valid_cache_entry e now) d"
  let ?f = "\<lambda>(k, e). created_at e"
  have d1: "distinct (map fst ?d1)" using assms by (rule distinct_map_filter)
  have "mset (map fst (sort_key ?f ?d1)) = mset (map fst ?d1)" by simp
  then have "distinct (map fst (sort_key ?f ?d1))"
    using d1 mset_eq_imp_distinct_iff by blast
  then have "distinct (map fst (drop (length ?d1 - 50) (sort_key ?f ?d1)))"
    by (simp add: drop_map [symmetric])
  then show ?thesis using d1 by (auto simp: cleanup_memory_cache_def Let_def)
qed

lemma dict_set_count:
  "distinct (map fst d) \<Longrightarrow> entries_since t (dict_set d key v) \<le> Suc (entries_since t d)"
proof -
  assume d: "distinct (map fst d)"
  have "length (filter (\<lambda>(k, e). key \<noteq> k \<and> t \<le> created_at e) d)
          \<le> length (filter (\<lambda>(k, e). t \<le> created_at e) d)"
  proof -
    have "filter (\<lambda>(k, e). key \<noteq> k \<and> t \<le> created_at e) d
            = filter (\<lambda>(k, e). key \<noteq> k) (filter (\<lambda>(k, e). t \<le> created_at e) d)"
      by (auto simp: case_prod_unfold conj_commute)
    then show ?thesis by (metis length_filter_le)
  qed
  then show ?thesis
    using dict_set_others [OF d, of "\<lambda>(k, e). t \<le> created_at e" key v]
    by (simp add: entries_since_def case_prod_unfold eq_commute)
qed

lemma cache_set_wf:
  assumes "distinct (map fst (memory_cache c))"
  shows "distinct (map fst (memory_cache (fst (cache_set (c, r) key v ttl now answers))))"
    and "entries_since t (memory_cache (fst (cache_set (c, r) key v ttl now answers)))
           \<le> Suc (entries_since t (memory_cache c))"
proof -
  let ?e = "\<lparr>data = v, expires_at = now + real_of_int ttl, created_at = now\<rparr>"
  let ?d = "dict_set (memory_cache c) key ?e"
  have m: "memory_cache (fst (cache_set (c, r) key v ttl now answers)) = cleanup_memory_cache ?d now"
    by (simp add: cache_set_def Let_def)
  show "distinct (map fst (memory_cache (fst (cache_set (c, r) key v ttl now answers))))"
    unfolding m using assms by (intro cleanup_distinct dict_set_distinct)
  have "entries_since t (cleanup_memory_cache ?d now) \<le> entries_since t ?d"
    unfolding entries_since_def by (rule cleanup_count)
  also have "\<dots> \<le> Suc (entries_since t (memory_cache c))"
    by (rule dict_set_count [OF assms])
  finally show "entries_since t (memory_cache (fst (cache_set (c, r) key v ttl now answers)))
           \<le> Suc (entries_since t (memory_cache c))"
    unfolding m .
qed

lemma later_le_since: "later_entries t key d \<le> entries_since t d"
proof -
  have "filter (\<lambda>(k, e). k \<noteq> key \<and> t \<le> created_at e) d
          = filter (\<lambda>(k, e). k \<noteq> key) (filter (\<lambda>(k, e). t \<le> created_at e) d)"
    by (auto simp: case_prod_unfold conj_commute)
  then show ?thesis
    unfolding later_entries_def entries_since_def by (metis length_filter_le)
qed

lemma dict_set_other_member: "k0 \<noteq> key \<Longrightarrow> (k0, e0) \<in> set d \<Longrightarrow> (k0, e0) \<in> set (dict_set d key v)"
  by (induction d) auto

lemma cache_set_preserves:
  assumes dist: "distinct (map fst (memory_cache c))"
    and k: "k0 \<noteq> key"
    and m: "map_of (memory_cache c) k0 = Some e0"
    and v: "is_valid_cache_entry e0 now"
    and cr: "created_at e0 = now"
    and cnt: "entries_since now (memory_cache c) < 50"
  shows "map_of (memory_cache (fst (cache_set (c, r) key v' ttl now answers))) k0 = Some e0"
proof -
  let ?e = "\<lparr>data = v', expires_at = now + real_of_int ttl, created_at = now\<rparr>"
  let ?d = "dict_set (memory_cache c) key ?e"
  have d: "distinct (map fst ?d)" using dist by (rule dict_set_distinct)
  have mem: "(k0, e0) \<in> set ?d"
    using m k by (intro dict_set_other_member) (auto dest: map_of_SomeD)
  have "entries_since now ?d \<le> 50" using dict_set_count [OF dist, of now key ?e] cnt by simp
  then have c: "length (filter (\<lambda>(k, e). created_at e0 \<le> created_at e) ?d) \<le> 50"
    by (simp add: entries_since_def cr)
  show ?thesis using cleanup_keeps(1) [OF d mem v c] by (simp add: cache_set_def Let_def)
qed

lemma set_all_wf:
  "distinct (map fst (memory_cache c)) \<Longrightarrow>
   distinct (map fst (memory_cache (fst (set_all (c, r) items now answers))))
   \<and> entries_since t (memory_cache (fst (set_all (c, r) items now answers)))
       \<le> entries_since t (memory_cache c) + length items"
proof (induction items arbitrary: c r)
  case Nil then show ?case by simp
next
  case (Cons a items)
  obtain key v where a: "a = (key, v)" by (cases a)
  obtain c' r' where s: "cache_set (c, r) key v 60 now (answers key) = (c', r')"
    by (cases "cache_set (c, r) key v 60 now (answers key)")
  have c': "c' = fst (cache_set (c, r) key v 60 now (answers key))" using s by simp
  have d: "distinct (map fst (memory_cache c'))"
    unfolding c' by (rule cache_set_wf(1) [OF Cons.prems])
  have n: "entries_since t (memory_cache c') \<le> Suc (entries_since t (memory_cache c))"
    unfolding c' by (rule cache_set_wf(2) [OF Cons.prems])
  show ?case using Cons.IH [OF d, of r'] n a s by simp
qed

lemma set_all_preserves:
  "distinct (map fst (memory_cache c)) \<Longrightarrow> k0 \<notin> fst ` set items \<Longrightarrow>
   map_of (memory_cache c) k0 = Some e0 \<Longrightarrow> is_valid_cache_entry e0 now \<Longrightarrow>
   created_at e0 = now \<Longrightarrow> entries_since now (memory_cache c) + length items \<le> 50 \<Longrightarrow>
   map_of (memory_cache (fst (set_all (c, r) items now answers))) k0 = Some e0"
proof (induction items arbitrary: c r)
  case Nil then show ?case by simp
next
  case (Cons a items)
  obtain key v where a: "a = (key, v)" by (cases a)
  obtain c' r' where s: "cache_set (c, r) key v 60 now (answers key) = (c', r')"
    by (cases "cache_set (c, r) key v 60 now (answers key)")
  have c': "c' = fst (cache_set (c, r) key v 60 now (answers key))" using s by simp
  have k: "k0 \<noteq> key" "k0 \<notin> fst ` set items" using Cons.prems(2) a by auto
  have lt: "entries_since now (memory_cache c) < 50" using Cons.prems(6) by simp
  have d: "distinct (map fst (memory_cache c'))"
    unfolding c' by (rule cache_set_wf(1) [OF Cons.prems(1)])
  have n: "entries_since now (memory_cache c') + length items \<le> 50"
    using cache_set_wf(2) [OF Cons.prems(1), of now r key v 60 now "answers key"] Cons.prems(6)
    unfolding c' by simp
  have m: "map_of (memory_cache c') k0 = Some e0"
    unfolding c'
    by (rule cache_set_preserves [OF Cons.prems(1) k(1) Cons.prems(3) Cons.prems(4) Cons.prems(5) lt])
  show ?case
    using Cons.IH [OF d k(2) m Cons.prems(4) Cons.prems(5) n, of r'] a s by simp
qed

lemma set_all_sets:
  "distinct (map fst (memory_cache c)) \<Longrightarrow> distinct (map fst items) \<Longrightarrow>
   entries_since now (memory_cache c) + length items \<le> 50 \<Longrightarrow> (key, v) \<in> set items \<Longrightarrow>
   map_of (memory_cache (fst (set_all (c, r) items now answers))) key = Some (fallback_entry v now)"
proof (induction items arbitrary: c r)
  case Nil then show ?case by simp
next
  case (Cons a items)
  obtain k1 v1 where a: "a = (k1, v1)" by (cases a)
  obtain c' r' where s: "cache_set (c, r) k1 v1 60 now (answers k1) = (c', r')"
    by (cases "cache_set (c, r) k1 v1 60 now (answers k1)")
  have c': "c' = fst (cache_set (c, r) k1 v1 60 now (answers k1))" using s by simp
  have d: "distinct (map fst (memory_cache c'))"
    unfolding c' by (rule cache_set_wf(1) [OF Cons.prems(1)])
  have n: "entries_since now (memory_cache c') + length items \<le> 50"
    using cache_set_wf(2) [OF Cons.prems(1), of now r k1 v1 60 now "answers k1"] Cons.prems(3)
    unfolding c' by simp
  have di: "distinct (map fst items)" "k1 \<notin> fst ` set items" using Cons.prems(2) a by auto
  show ?case
  proof (cases "(key, v) = (k1, v1)")
    case True
    have "later_entries now k1 (memory_cache c) < 50"
      using later_le_since [of now k1 "memory_cache c"] Cons.prems(3) by simp
    then have m: "map_of (memory_cache c') k1 = Some (fallback_entry v1 now)"
      unfolding c' fallback_entry_def
      using cache_set_local(1) [OF Cons.prems(1), of 60 now k1 r v1 "answers k1"] by simp
    have "map_of (memory_cache (fst (set_all (c', r') items now answers))) k1
            = Some (fallback_entry v1 now)"
      by (rule set_all_preserves [OF d di(2) m _ _ n])
         (simp_all add: fallback_entry_def is_valid_cache_entry_def)
    then show ?thesis using True a s by simp
  next
    case False
    then have "(key, v) \<in> set items" using Cons.prems(4) a by auto
    then show ?thesis using Cons.IH [OF d di(1) n, of r'] a s by simp
  qed
qed

lemma set_fallback_data_sets:
  assumes "distinct (map fst (memory_cache c))"
    and "entries_since now (memory_cache c) \<le> 45"
    and "(key, v) \<in> set fallback_data"
  shows "map_of (memory_cache (fst (set_fallback_data (c, r) now answers))) key
           = Some (fallback_entry v now)"
proof -
  obtain c' r' where s: "set_all (c, r) fallback_data now answers = (c', r')"
    by (cases "set_all (c, r) fallback_data now answers")
  have c': "c' = fst (set_all (c, r) fallback_data now answers)" using s by simp
  have len: "length fallback_data = 4" by (simp add: fallback_data_def)
  have di: "distinct (map fst fallback_data)" by (simp add: fallback_data_def)
  have wf: "distinct (map fst (memory_cache c'))"
        "entries_since now (memory_cache c') \<le> entries_since now (memory_cache c) + 4"
    using set_all_wf [OF assms(1), of r fallback_data now answers now] len unfolding c' by simp_all
  have m: "map_of (memory_cache c') key = Some (fallback_entry v now)"
    unfolding c' by (rule set_all_sets [OF assms(1) di _ assms(3)]) (use assms(2) len in simp)
  have k: "key \<noteq> ''router_status''" using assms(3) by (auto simp: fallback_data_def)
  have lt: "entries_since now (memory_cache c') < 50" using wf(2) assms(2) by simp
  have "map_of (memory_cache (fst (cache_set (c', r') ''router_status''
            (JDict [(''online'', JBool False), (''last_error'', JStr ''Connection failed'')])
            60 now (answers ''router_status'')))) key = Some (fallback_entry v now)"
    by (rule cache_set_preserves [OF wf(1) k m _ _ lt])
       (simp_all add: fallback_entry_def is_valid_cache_entry_def)
  then show ?thesis by (simp add: set_fallback_data_def s)
qed

text \<open>
  Claim C7. When the connectivity test at startup fails, the initial collection writes the
  fallback record of every category into the cache with a lifetime of 60 seconds: after
  it, the memory cache holds each key of the fallback data with its record and the expiry
  time 60 seconds ahead; \<open>router_interfaces\<close> holds the empty list. The cache is taken
  as a dict with at most 45 entries created at or after the time of the collection.
\<close>

theorem initial_collection_fallback:
  assumes "outcome (test_connection dev (router st)) = Inr False"
    and "distinct (map fst (memory_cache (fst (router_cache st))))"
    and "entries_since (collection_time dev st) (memory_cache (fst (router_cache st))) \<le> 45"
  shows "\<exists>st'. initial_data_collection dev update_all answers st = Inr st'
           \<and> (\<forall>(key, v) \<in> set fallback_data.
                 map_of (memory_cache (fst (router_cache st'))) key
                   = Some \<lparr>data = v, expires_at = collection_time dev st + 60,
                           created_at = collection_time dev st\<rparr>)
           \<and> map_of (memory_cache (fst (router_cache st'))) ''router_interfaces''
                 = Some \<lparr>data = JList [], expires_at = collection_time dev st + 60,
                         created_at = collection_time dev st\<rparr>"
proof -
  let ?now = "collection_time dev st"
  let ?t = "test_connection dev (router st)"
  let ?st1 = "st\<lparr>router := final ?t\<rparr>"
  let ?st' = "?st1\<lparr>router_cache := set_fallback_data (router_cache ?st1) (clock (router ?st1)) answers\<rparr>"
  obtain c r where cr: "router_cache st = (c, r)" by (cases "router_cache st")
  have i: "initial_data_collection dev update_all answers st = Inr ?st'"
    using assms(1) by (simp add: initial_data_collection_def Let_def)
  have rc: "router_cache ?st' = set_fallback_data (c, r) ?now answers"
    by (simp add: cr collection_time_def)
  have d: "distinct (map fst (memory_cache c))" using assms(2) cr by simp
  have n: "entries_since ?now (memory_cache c) \<le> 45" using assms(3) cr by simp
  have all: "\<And>key v. (key, v) \<in> set fallback_data \<Longrightarrow>
       map_of (memory_cache (fst (router_cache ?st'))) key = Some (fallback_entry v ?now)"
    unfolding rc by (rule set_fallback_data_sets [OF d n])
  have ri: "(''router_interfaces'', JList []) \<in> set fallback_data" by (simp add: fallback_data_def)
  show ?thesis
    using i all all [OF ri] unfolding fallback_entry_def by (intro exI [of _ ?st']) auto
qed

theorem initial_collection_fallback_witness:
  "outcome (test_connection unreachable_device (router cold_poller)) = Inr False
   \<and> collection_time unreachable_device cold_poller = 8
   \<and> (case initial_data_collection unreachable_device id (\<lambda>key. True) cold_poller of
         Inl e \<Rightarrow> False
       | Inr st' \<Rightarrow>
           map_of (memory_cache (fst (router_cache st'))) ''router_interfaces''
             = Some \<lparr>data = JList [], expires_at = 68, created_at = 8\<rparr>)"
proof -
  have t: "test_connection unreachable_device (router cold_poller)
             = \<lparr>outcome = Inr False,
                final = \<lparr>clock = 8, pool = [], closed = [], opened = 0, sent = []\<rparr>,
                invocations = 1, sleeps = []\<rparr>"
    by (simp add: test_connection_def test_connection_body_def executor_eval retry_loop.simps
        unreachable_device_def cold_poller_def idle_world_def)
  have h1: "outcome (test_connection unreachable_device (router cold_poller)) = Inr False"
    by (simp add: t)
  have ct: "collection_time unreachable_device cold_poller = 8"
    by (simp add: collection_time_def t)
  have h2: "distinct (map fst (memory_cache (fst (router_cache cold_poller))))"
    by (simp add: cold_poller_def new_cache_def)
  have h3: "entries_since (collection_time unreachable_device cold_poller)
              (memory_cache (fst (router_cache cold_poller))) \<le> 45"
    by (simp add: cold_poller_def new_cache_def entries_since_def)
  obtain st' where
    "initial_data_collection unreachable_device id (\<lambda>key. True) cold_poller = Inr st'"
    "map_of (memory_cache (fst (router_cache st'))) ''router_interfaces''
       = Some \<lparr>data = JList [], expires_at = collection_time unreachable_device cold_poller + 60,
               created_at = collection_time unreachable_device cold_poller\<rparr>"
    using initial_collection_fallback [OF h1 h2 h3, of id "\<lambda>key. True"] by blast
  then show ?thesis using h1 ct by simp
qed

end
